theory Spec2Isabelle
  imports Complex_Main "HOL-Library.AList" "HOL-Library.Word"
begin

section \<open>Movie World: the enrichment and caching core\<close>

text \<open>
  A shallow embedding of the parts of the Movie World front end that carry logic:
  the response cache (\<^verbatim>\<open>ApiCache\<close>), the retry helper (\<^verbatim>\<open>retryApiCall\<close>) and the page
  window (\<^verbatim>\<open>generatePageNumbers\<close>) of \<^verbatim>\<open>utils/apiHelpers.js\<close>, and the genre registry,
  the merge functions and the batched enrichment of the \<^verbatim>\<open>ApiService\<close> class together with
  \<^verbatim>\<open>OMDBApi.searchByTitle\<close>. The first part holds the model, one definition per source
  function, under the source's names; the second part holds the properties.

  Conventions. JavaScript numbers that count or index (page numbers, sizes, delays,
  time stamps in milliseconds) are integers. Whatever comes from outside the program
  (the clock, the outcome of a network call, the order in which concurrent lookups
  complete) is an explicit argument. A function that can throw returns a sum, with the
  exception on the left; a function that may never return yields an \<open>option\<close>, and
  \<open>None\<close> stands for "no result".
\<close>

subsection \<open>Exceptions\<close>

text \<open>
  The exceptions the modelled code meets: a \<^verbatim>\<open>TypeError\<close> of the language (reading a
  property of \<^verbatim>\<open>null\<close> or \<^verbatim>\<open>undefined\<close>, calling what is not a function), an HTTP
  error response with its status, and a request that got no response. \<^verbatim>\<open>handleApiError\<close>
  tells the last two apart in the same way, and reads status 401 as an invalid API key
  and status 429 as too many requests.
\<close>

datatype js_error = TypeError | HttpStatus nat | NetworkError

definition authentication_failure :: js_error where
  "authentication_failure = HttpStatus 401"

definition rate_limited :: js_error where
  "rate_limited = HttpStatus 429"

subsection \<open>The response cache\<close>

text \<open>
  \<^verbatim>\<open>ApiCache\<close> keeps a JavaScript \<^verbatim>\<open>Map\<close> from keys to \<^verbatim>\<open>{data, expiry}\<close>. A \<^verbatim>\<open>Map\<close>
  iterates in insertion order, \<^verbatim>\<open>set\<close> on a key that is present replaces the value in
  place and on a new key appends, so the store is an association list in insertion
  order: \<open>AList.update\<close> is \<^verbatim>\<open>Map.set\<close>, \<open>AList.delete\<close> is \<^verbatim>\<open>Map.delete\<close>, \<open>map_of\<close> is
  \<^verbatim>\<open>Map.get\<close> and \<open>first_key\<close> is \<^verbatim>\<open>keys().next().value\<close> (nothing on an empty map).
  \<^verbatim>\<open>Date.now()\<close> is the argument \<open>now\<close>.
\<close>

record 'v cache_item =
  data :: 'v
  expiry :: int

record ('k, 'v) ApiCache =
  cache :: "('k \<times> 'v cache_item) list"
  maxSize :: int
  ttl :: int

definition new_ApiCache :: "int \<Rightarrow> int \<Rightarrow> ('k, 'v) ApiCache" where
  "new_ApiCache maxSize' ttl' = \<lparr>cache = [], maxSize = maxSize', ttl = ttl'\<rparr>"

definition apiCache :: "('k, 'v) ApiCache" where
  "apiCache = new_ApiCache 100 (5 * 60 * 1000)"

definition first_key :: "('k \<times> 'e) list \<Rightarrow> 'k option" where
  "first_key m = (case m of [] \<Rightarrow> None | (k, _) # _ \<Rightarrow> Some k)"

definition ApiCache_get :: "('k, 'v) ApiCache \<Rightarrow> int \<Rightarrow> 'k \<Rightarrow> 'v option \<times> ('k, 'v) ApiCache" where
  "ApiCache_get c now key =
     (case map_of (cache c) key of
        None \<Rightarrow> (None, c)
      | Some item \<Rightarrow>
          if now > expiry item
          then (None, c\<lparr>cache := AList.delete key (cache c)\<rparr>)
          else (Some (data item), c))"

definition ApiCache_set :: "('k, 'v) ApiCache \<Rightarrow> int \<Rightarrow> 'k \<Rightarrow> 'v \<Rightarrow> ('k, 'v) ApiCache" where
  "ApiCache_set c now key d =
     (let c1 = (if int (length (cache c)) \<ge> maxSize c
                then (case first_key (cache c) of
                        None \<Rightarrow> c
                      | Some firstKey \<Rightarrow> c\<lparr>cache := AList.delete firstKey (cache c)\<rparr>)
                else c)
      in c1\<lparr>cache := AList.update key \<lparr>data = d, expiry = now + ttl c1\<rparr> (cache c1)\<rparr>)"

definition ApiCache_clear :: "('k, 'v) ApiCache \<Rightarrow> ('k, 'v) ApiCache" where
  "ApiCache_clear c = c\<lparr>cache := []\<rparr>"

definition ApiCache_size :: "('k, 'v) ApiCache \<Rightarrow> nat" where
  "ApiCache_size c = length (cache c)"

text \<open>
  A use of the cache over time is a list of calls, each with the clock's reading when it
  is made.
\<close>

datatype ('k, 'v) cache_op = Get 'k | Set 'k 'v | Clear | Size

fun apply_op :: "('k, 'v) ApiCache \<Rightarrow> int \<times> ('k, 'v) cache_op \<Rightarrow> ('k, 'v) ApiCache" where
  "apply_op c (now, Get key) = snd (ApiCache_get c now key)"
| "apply_op c (now, Set key d) = ApiCache_set c now key d"
| "apply_op c (now, Clear) = ApiCache_clear c"
| "apply_op c (now, Size) = c"

definition run_ops :: "('k, 'v) ApiCache \<Rightarrow> (int \<times> ('k, 'v) cache_op) list \<Rightarrow> ('k, 'v) ApiCache" where
  "run_ops c ops = foldl apply_op c ops"

text \<open>The store as \<^verbatim>\<open>set\<close> leaves it after its capacity check, before the new entry goes in.\<close>

definition evicted :: "('k, 'v) ApiCache \<Rightarrow> ('k \<times> 'v cache_item) list" where
  "evicted c =
     (if int (length (cache c)) \<ge> maxSize c
      then (case first_key (cache c) of
              None \<Rightarrow> cache c
            | Some firstKey \<Rightarrow> AList.delete firstKey (cache c))
      else cache c)"

subsection \<open>The retry helper\<close>

text \<open>
  \<^verbatim>\<open>retryApiCall(apiCall, maxRetries = 3, delay = 1000)\<close> runs a loop over
  \<^verbatim>\<open>i = 0, 1, ...\<close> while \<^verbatim>\<open>i < maxRetries\<close>. The call is an effect, so \<open>apiCall n\<close> is what
  its invocation number \<open>n\<close> (from 0) does: it returns a value or throws. What the caller
  can observe of a run is how it ends, how often the call was made, and which delays
  were waited for, in milliseconds and in order. A loop that ends without returning
  gives \<^verbatim>\<open>undefined\<close>.
\<close>

datatype ('e, 'a) completion = Returned 'a | Threw 'e | ReturnedUndefined

record ('e, 'a) retry_run =
  outcome :: "('e, 'a) completion"
  calls :: nat
  waits :: "int list"

function retry_loop ::
  "(nat \<Rightarrow> 'e + 'a) \<Rightarrow> int \<Rightarrow> int \<Rightarrow> nat \<Rightarrow> nat \<Rightarrow> int list \<Rightarrow> ('e, 'a) retry_run" where
  "retry_loop apiCall maxRetries delay i called waited =
     (if int i < maxRetries then
        (case apiCall called of
           Inr v \<Rightarrow> \<lparr>outcome = Returned v, calls = called + 1, waits = waited\<rparr>
         | Inl error \<Rightarrow>
             if int i = maxRetries - 1
             then \<lparr>outcome = Threw error, calls = called + 1, waits = waited\<rparr>
             else retry_loop apiCall maxRetries delay (i + 1) (called + 1)
                    (waited @ [delay * (int i + 1)]))
      else \<lparr>outcome = ReturnedUndefined, calls = called, waits = waited\<rparr>)"
  by pat_completeness auto
termination
  by (relation "measure (\<lambda>(apiCall, maxRetries, delay, i, called, waited). nat (maxRetries - int i))")
    auto

declare retry_loop.simps [simp del]

definition retryApiCall :: "(nat \<Rightarrow> 'e + 'a) \<Rightarrow> int \<Rightarrow> int \<Rightarrow> ('e, 'a) retry_run" where
  "retryApiCall apiCall maxRetries delay = retry_loop apiCall maxRetries delay 0 0 []"

subsection \<open>The page window\<close>

text \<open>
  \<^verbatim>\<open>generatePageNumbers(currentPage, totalPages, maxVisible = 5)\<close>. \<^verbatim>\<open>Math.floor\<close> of half
  an integer is \<open>div 2\<close>; the \<^verbatim>\<open>for\<close> loop that pushes \<^verbatim>\<open>start, ..., end\<close> is \<open>page_loop\<close>.
\<close>

function page_loop :: "int \<Rightarrow> int \<Rightarrow> int list \<Rightarrow> int list" where
  "page_loop i end pages = (if i \<le> end then page_loop (i + 1) end (pages @ [i]) else pages)"
  by pat_completeness auto
termination
  by (relation "measure (\<lambda>(i, e, pages). nat (e + 1 - i))") auto

declare page_loop.simps [simp del]

definition generatePageNumbers :: "int \<Rightarrow> int \<Rightarrow> int \<Rightarrow> int list" where
  "generatePageNumbers currentPage totalPages maxVisible =
     (let half = maxVisible div 2;
          start = max 1 (currentPage - half);
          end = min totalPages (start + maxVisible - 1);
          start = (if end - start + 1 < maxVisible then max 1 (end - maxVisible + 1) else start)
      in page_loop start end [])"

text \<open>
  The first page of the window, in closed form: the centred start
  \<open>currentPage - maxVisible div 2\<close>, pulled down so that \<open>maxVisible\<close> pages fit below
  \<open>totalPages\<close>, and then up to page 1.
\<close>

definition window_start :: "int \<Rightarrow> int \<Rightarrow> int \<Rightarrow> int" where
  "window_start currentPage totalPages maxVisible =
     max 1 (min (currentPage - maxVisible div 2) (totalPages - maxVisible + 1))"

subsection \<open>Promises that settle in some order\<close>

text \<open>
  \<^verbatim>\<open>Promise.all\<close> of the language: it is given promises that have been started, each of
  which ends fulfilled with a value (right) or rejected with an exception (left). They
  settle one after the other in an order the program does not control, here the list
  \<open>order\<close> of their indices. Each fulfilment stores the value in the slot of its own
  index; when the last slot is filled the whole resolves with the slots in index order,
  and the first rejection to happen rejects the whole. When the order ends with a slot
  still empty the whole is never settled (\<open>None\<close>). Of an empty list it resolves at once.
\<close>

fun settle_all :: "('e + 'a) list \<Rightarrow> nat list \<Rightarrow> 'a option list \<Rightarrow> ('e + 'a list) option" where
  "settle_all ps [] slots = None"
| "settle_all ps (k # order) slots =
     (if k < length ps then
        (case ps ! k of
           Inl e \<Rightarrow> Some (Inl e)
         | Inr v \<Rightarrow>
             (case those (slots[k := Some v]) of
                Some vs \<Rightarrow> Some (Inr vs)
              | None \<Rightarrow> settle_all ps order (slots[k := Some v])))
      else settle_all ps order slots)"

definition Promise_all :: "('e + 'a) list \<Rightarrow> nat list \<Rightarrow> ('e + 'a list) option" where
  "Promise_all ps order =
     (if ps = [] then Some (Inr []) else settle_all ps order (replicate (length ps) None))"

text \<open>An order in which each of \<open>n\<close> promises settles, once: any arrangement of \<open>0, ..., n - 1\<close>.\<close>

definition completion_order :: "nat \<Rightarrow> nat list \<Rightarrow> bool" where
  "completion_order n order = (distinct order \<and> set order = {..<n})"

subsection \<open>The genre registry\<close>

text \<open>
  \<^verbatim>\<open>ApiService.getGenres\<close>. A genre is \<^verbatim>\<open>{id, name}\<close> (\<open>genre_id\<close> here, since \<open>id\<close> is the
  identity function). \<^verbatim>\<open>genreCache\<close> is a \<^verbatim>\<open>Map\<close> that is only ever read and written at
  the key \<^verbatim>\<open>'all'\<close>. The two fetches are started together and awaited with
  \<^verbatim>\<open>Promise.all\<close>; what each ends with is an argument, as is the order in which they
  settle. The \<^verbatim>\<open>reduce\<close> that removes duplicates is a left fold whose step appends a genre
  when \<^verbatim>\<open>find\<close> meets no genre of that id in the accumulator. The \<^verbatim>\<open>catch\<close> of the method
  logs and throws the same exception again.
\<close>

record genre =
  genre_id :: int
  name :: string

definition add_if_new :: "genre list \<Rightarrow> genre \<Rightarrow> genre list" where
  "add_if_new acc genre =
     (if find (\<lambda>g. genre_id g = genre_id genre) acc = None then acc @ [genre] else acc)"

definition uniqueGenres :: "genre list \<Rightarrow> genre list" where
  "uniqueGenres allGenres = foldl add_if_new [] allGenres"

record api_service =
  genreCache :: "string \<rightharpoonup> genre list"

definition getGenres ::
  "api_service \<Rightarrow> nat list \<Rightarrow> js_error + genre list \<Rightarrow> js_error + genre list
     \<Rightarrow> (js_error + genre list) option \<times> api_service" where
  "getGenres s order getMovieGenres getTVGenres =
     (case genreCache s ''all'' of
        Some cached \<Rightarrow> (Some (Inr cached), s)
      | None \<Rightarrow>
          (case Promise_all [getMovieGenres, getTVGenres] order of
             None \<Rightarrow> (None, s)
           | Some (Inl error) \<Rightarrow> (Some (Inl error), s)
           | Some (Inr fetched) \<Rightarrow>
               (let movieGenres = fetched ! 0;
                    tvGenres = fetched ! 1;
                    allGenres = movieGenres @ tvGenres;
                    unique = uniqueGenres allGenres
                in (Some (Inr unique), s\<lparr>genreCache := (genreCache s)(''all'' \<mapsto> unique)\<rparr>))))"

subsection \<open>JavaScript values\<close>

text \<open>
  The records of the two sources are plain data objects built from JSON. A value is
  \<^verbatim>\<open>undefined\<close>, \<^verbatim>\<open>null\<close>, a boolean, a number, a string, an array or an object. A string
  is its sequence of UTF-16 code units, which is what \<^verbatim>\<open>length\<close> counts; \<open>utf16\<close> writes a
  string literal of the source (of ASCII characters). A number is kept as the real it
  denotes, or as one of the three values that denote none; the model never calculates
  with numbers, it only asks whether one is truthy. An object is the list of its
  properties with their values, in the order in which they were added, and a property
  that is absent reads as \<^verbatim>\<open>undefined\<close>, as in the language.
\<close>

type_synonym jsstring = "16 word list"

definition utf16 :: "string \<Rightarrow> jsstring" where
  "utf16 s = map of_char s"

datatype jsnum = NaN | PosInfinity | NegInfinity | Finite real

datatype jsval =
    Undefined
  | Null
  | Bool bool
  | Num jsnum
  | Str jsstring
  | Arr "jsval list"
  | Obj "(string \<times> jsval) list"

type_synonym jsobj = "(string \<times> jsval) list"

text \<open>
  \<^verbatim>\<open>obj.k\<close> on an object, and the object literal \<^verbatim>\<open>{...obj, k1: v1, k2: v2, ...}\<close>: the
  properties of \<open>obj\<close> in their order, then each listed property set in turn, which
  replaces the value of a property that is there and appends one that is not.
\<close>

definition field :: "jsobj \<Rightarrow> string \<Rightarrow> jsval" where
  "field obj k = (case map_of obj k of Some v \<Rightarrow> v | None \<Rightarrow> Undefined)"

definition assign :: "jsobj \<Rightarrow> (string \<times> jsval) list \<Rightarrow> jsobj" where
  "assign obj kvs = foldl (\<lambda>obj (k, v). AList.update k v obj) obj kvs"

text \<open>Truthiness, as \<^verbatim>\<open>if (v)\<close>, \<^verbatim>\<open>v && w\<close> and \<^verbatim>\<open>v || w\<close> test it.\<close>

fun truthy :: "jsval \<Rightarrow> bool" where
  "truthy Undefined = False"
| "truthy Null = False"
| "truthy (Bool b) = b"
| "truthy (Num NaN) = False"
| "truthy (Num (Finite r)) = (r \<noteq> 0)"
| "truthy (Num n) = True"
| "truthy (Str s) = (s \<noteq> [])"
| "truthy (Arr xs) = True"
| "truthy (Obj obj) = True"

text \<open>\<^verbatim>\<open>a || b\<close> where evaluating \<^verbatim>\<open>b\<close> cannot throw.\<close>

definition js_or :: "jsval \<Rightarrow> jsval \<Rightarrow> jsval" where
  "js_or a b = (if truthy a then a else b)"

fun nullish :: "jsval \<Rightarrow> bool" where
  "nullish Undefined = True"
| "nullish Null = True"
| "nullish v = False"

text \<open>
  Reading the property \<open>k\<close> of a value that is neither \<^verbatim>\<open>null\<close> nor \<^verbatim>\<open>undefined\<close>; then
  \<^verbatim>\<open>v.k\<close>, which throws on those two, and \<^verbatim>\<open>v?.k\<close>, which gives \<^verbatim>\<open>undefined\<close> on them.
\<close>

fun read_prop :: "jsval \<Rightarrow> string \<Rightarrow> jsval" where
  "read_prop (Obj obj) k = field obj k"
| "read_prop (Str s) k = (if k = ''length'' then Num (Finite (real (length s))) else Undefined)"
| "read_prop (Arr xs) k = (if k = ''length'' then Num (Finite (real (length xs))) else Undefined)"
| "read_prop v k = Undefined"

definition get_prop :: "jsval \<Rightarrow> string \<Rightarrow> js_error + jsval" where
  "get_prop v k = (if nullish v then Inl TypeError else Inr (read_prop v k))"

definition opt_chain :: "jsval \<Rightarrow> string \<Rightarrow> jsval" where
  "opt_chain v k = (if nullish v then Undefined else read_prop v k)"

text \<open>
  \<^verbatim>\<open>a > b\<close>, which the merge functions apply to two \<^verbatim>\<open>length\<close> properties. Both sides
  are converted to numbers (\<^verbatim>\<open>undefined\<close> to \<^verbatim>\<open>NaN\<close>, \<^verbatim>\<open>null\<close> to 0, a boolean to 0 or
  1) and compared, and a comparison with \<^verbatim>\<open>NaN\<close> is false. The conversion of strings,
  arrays and objects to numbers is not modelled (\<open>None\<close>, and the comparison is taken to
  be false): a \<^verbatim>\<open>length\<close> is such a value only when it is read from an object that has a
  property of this name holding a string, an array or an object, which no record of the
  two sources has.
\<close>

fun to_number :: "jsval \<Rightarrow> jsnum option" where
  "to_number Undefined = Some NaN"
| "to_number Null = Some (Finite 0)"
| "to_number (Bool b) = Some (Finite (if b then 1 else 0))"
| "to_number (Num n) = Some n"
| "to_number v = None"

fun num_gt :: "jsnum \<Rightarrow> jsnum \<Rightarrow> bool" where
  "num_gt NaN b = False"
| "num_gt a NaN = False"
| "num_gt (Finite a) (Finite b) = (a > b)"
| "num_gt PosInfinity b = (b \<noteq> PosInfinity)"
| "num_gt a PosInfinity = False"
| "num_gt NegInfinity b = False"
| "num_gt a NegInfinity = True"

definition js_gt :: "jsval \<Rightarrow> jsval \<Rightarrow> bool" where
  "js_gt a b =
     (case (to_number a, to_number b) of
        (Some x, Some y) \<Rightarrow> num_gt x y
      | _ \<Rightarrow> False)"

text \<open>Sequencing of steps that may throw: the first exception ends the evaluation.\<close>

definition bind_result :: "'e + 'a \<Rightarrow> ('a \<Rightarrow> 'e + 'b) \<Rightarrow> 'e + 'b" where
  "bind_result r f = (case r of Inl e \<Rightarrow> Inl e | Inr v \<Rightarrow> f v)"

subsection \<open>The merge functions\<close>

text \<open>
  \<^verbatim>\<open>ApiService.mergeBasicData\<close> and \<^verbatim>\<open>mergeDetailedData\<close> build
  \<^verbatim>\<open>{...tmdbItem, imdb: ..., ...}\<close>: the primary record with the listed properties set.
  Three of the property expressions can throw and are evaluated by \<open>merged_plot\<close>,
  \<open>merged_cast\<close> and \<open>merged_production\<close>; the others cannot.

  \<^verbatim>\<open>plot\<close> is \<^verbatim>\<open>(omdbItem.plot && omdbItem.plot.length > tmdbItem.plot.length) ?
  omdbItem.plot : tmdbItem.plot\<close>; the right of \<^verbatim>\<open>&&\<close> is evaluated only when the left is
  truthy.
\<close>

definition merged_plot :: "jsobj \<Rightarrow> jsobj \<Rightarrow> js_error + jsval" where
  "merged_plot tmdbItem omdbItem =
     (if truthy (field omdbItem ''plot'') then
        bind_result (get_prop (field omdbItem ''plot'') ''length'') (\<lambda>omdbLength.
        bind_result (get_prop (field tmdbItem ''plot'') ''length'') (\<lambda>tmdbLength.
          Inr (if js_gt omdbLength tmdbLength then field omdbItem ''plot'' else field tmdbItem ''plot'')))
      else Inr (field tmdbItem ''plot''))"

text \<open>
  \<^verbatim>\<open>cast\<close> is \<^verbatim>\<open>tmdbItem.cast && tmdbItem.cast.length > 0 ? tmdbItem.cast :
  omdbItem.actors || []\<close>.
\<close>

definition merged_cast :: "jsobj \<Rightarrow> jsobj \<Rightarrow> js_error + jsval" where
  "merged_cast tmdbItem omdbItem =
     (if truthy (field tmdbItem ''cast'') then
        bind_result (get_prop (field tmdbItem ''cast'') ''length'') (\<lambda>castLength.
          Inr (if js_gt castLength (Num (Finite 0)) then field tmdbItem ''cast''
               else js_or (field omdbItem ''actors'') (Arr [])))
      else Inr (js_or (field omdbItem ''actors'') (Arr [])))"

definition mergeBasicData :: "jsobj \<Rightarrow> jsobj \<Rightarrow> js_error + jsobj" where
  "mergeBasicData tmdbItem omdbItem =
     bind_result (merged_plot tmdbItem omdbItem) (\<lambda>plot.
     bind_result (merged_cast tmdbItem omdbItem) (\<lambda>cast.
       Inr (assign tmdbItem
         [(''imdb'', js_or (field omdbItem ''imdbRating'') (field tmdbItem ''rating'')),
          (''rottenTomatoes'', js_or (opt_chain (field omdbItem ''ratings'') ''rottenTomatoes'') Null),
          (''metacritic'', js_or (opt_chain (field omdbItem ''ratings'') ''metacritic'') Null),
          (''imdbId'', field omdbItem ''imdbId''),
          (''rated'', field omdbItem ''rated''),
          (''awards'', field omdbItem ''awards''),
          (''plot'', plot),
          (''cast'', cast),
          (''director'', js_or (field omdbItem ''director'') (field tmdbItem ''director'')),
          (''writer'', field omdbItem ''writer''),
          (''boxOffice'', field omdbItem ''boxOffice''),
          (''runtime'', js_or (field omdbItem ''runtime'') (field tmdbItem ''runtime''))])))"

text \<open>
  \<^verbatim>\<open>production\<close> is \<^verbatim>\<open>omdbItem.production || tmdbItem.productionCompanies?.join(', ')\<close>.
  The right of \<^verbatim>\<open>||\<close> is evaluated only when the left is falsy; there, a value that is
  neither absent nor an array has no \<^verbatim>\<open>join\<close> to call. \<^verbatim>\<open>Array.prototype.join\<close> itself is
  the argument \<open>join\<close>, from the elements and the separator to the joined string.
\<close>

definition joined_companies :: "(jsval list \<Rightarrow> jsstring \<Rightarrow> jsstring) \<Rightarrow> jsval \<Rightarrow> js_error + jsval" where
  "joined_companies join productionCompanies =
     (if nullish productionCompanies then Inr Undefined
      else (case productionCompanies of
              Arr names \<Rightarrow> Inr (Str (join names (utf16 '', '')))
            | _ \<Rightarrow> Inl TypeError))"

definition merged_production ::
  "(jsval list \<Rightarrow> jsstring \<Rightarrow> jsstring) \<Rightarrow> jsobj \<Rightarrow> jsobj \<Rightarrow> js_error + jsval" where
  "merged_production join tmdbItem omdbItem =
     (if truthy (field omdbItem ''production'') then Inr (field omdbItem ''production'')
      else joined_companies join (field tmdbItem ''productionCompanies''))"

definition mergeDetailedData ::
  "(jsval list \<Rightarrow> jsstring \<Rightarrow> jsstring) \<Rightarrow> jsobj \<Rightarrow> jsobj \<Rightarrow> js_error + jsobj" where
  "mergeDetailedData join tmdbItem omdbItem =
     bind_result (merged_plot tmdbItem omdbItem) (\<lambda>plot.
     bind_result (merged_cast tmdbItem omdbItem) (\<lambda>cast.
     bind_result (merged_production join tmdbItem omdbItem) (\<lambda>production.
       Inr (assign tmdbItem
         [(''imdb'', js_or (field omdbItem ''imdbRating'') (field tmdbItem ''rating'')),
          (''rottenTomatoes'', js_or (opt_chain (field omdbItem ''ratings'') ''rottenTomatoes'') Null),
          (''metacritic'', js_or (opt_chain (field omdbItem ''ratings'') ''metacritic'') Null),
          (''metascore'', field omdbItem ''metascore''),
          (''imdbVotes'', field omdbItem ''imdbVotes''),
          (''imdbId'', field omdbItem ''imdbId''),
          (''rated'', field omdbItem ''rated''),
          (''awards'', field omdbItem ''awards''),
          (''language'', field omdbItem ''language''),
          (''country'', field omdbItem ''country''),
          (''plot'', plot),
          (''cast'', cast),
          (''director'', js_or (field omdbItem ''director'') (field tmdbItem ''director'')),
          (''writer'', field omdbItem ''writer''),
          (''boxOffice'', field omdbItem ''boxOffice''),
          (''runtime'', js_or (field omdbItem ''runtime'') (field tmdbItem ''runtime'')),
          (''dvd'', field omdbItem ''dvd''),
          (''website'', field omdbItem ''website''),
          (''production'', production),
          (''totalSeasons'',
             js_or (field omdbItem ''totalSeasons'') (field tmdbItem ''numberOfSeasons''))]))))"

text \<open>
  The primary records of the catalogue hold their company names in an array
  (\<^verbatim>\<open>transformMovieDetails\<close>) or have no such property (the listing transforms).
\<close>

fun array_or_absent :: "jsval \<Rightarrow> bool" where
  "array_or_absent Undefined = True"
| "array_or_absent Null = True"
| "array_or_absent (Arr xs) = True"
| "array_or_absent v = False"

subsection \<open>The secondary lookup\<close>

text \<open>
  \<^verbatim>\<open>OMDBApi.searchByTitle(title, year, type)\<close> builds the query, awaits
  \<^verbatim>\<open>this.api.get('/', { params })\<close>, answers \<^verbatim>\<open>null\<close> when the payload's \<^verbatim>\<open>Response\<close> is
  \<^verbatim>\<open>'False'\<close> and the transformed payload otherwise; its \<^verbatim>\<open>catch\<close> turns every exception
  of these steps into \<^verbatim>\<open>null\<close> (\<open>None\<close>). The network is the field \<open>api_get\<close>: what request
  number \<open>n\<close> of the engine, with these parameters, ends with, a rejection or the
  \<^verbatim>\<open>data\<close> of the response. \<^verbatim>\<open>transformOMDBData\<close> reshapes a payload with \<^verbatim>\<open>parseFloat\<close>,
  \<^verbatim>\<open>split\<close> and regular expressions and throws on a payload that lacks what it reads;
  it enters as a field too, from the payload to the enrichment record or an exception.
\<close>

record omdb_api =
  api_get :: "nat \<Rightarrow> jsobj \<Rightarrow> js_error + jsval"
  transformOMDBData :: "jsval \<Rightarrow> js_error + jsobj"

definition request_params :: "jsval \<Rightarrow> jsval \<Rightarrow> jsval \<Rightarrow> jsobj" where
  "request_params title year type =
     (let params = [(''t'', title)];
          params = (if truthy year then AList.update ''y'' year params else params);
          params = (if truthy type then AList.update ''type'' type params else params)
      in params)"

definition searchByTitle :: "omdb_api \<Rightarrow> nat \<Rightarrow> jsval \<Rightarrow> jsval \<Rightarrow> jsval \<Rightarrow> jsobj option" where
  "searchByTitle omdb n title year type =
     (case bind_result (api_get omdb n (request_params title year type)) (\<lambda>data.
           bind_result (get_prop data ''Response'') (\<lambda>response.
             if response = Str (utf16 ''False'') then Inr None
             else bind_result (transformOMDBData omdb data) (\<lambda>omdbItem. Inr (Some omdbItem)))) of
        Inl error \<Rightarrow> None
      | Inr found \<Rightarrow> found)"

definition getOMDBType :: "jsval \<Rightarrow> jsval" where
  "getOMDBType tmdbType =
     (if tmdbType = Str (utf16 ''movie'') then Str (utf16 ''movie'')
      else if tmdbType = Str (utf16 ''tv'') then Str (utf16 ''series'')
      else Null)"

text \<open>The query that the engine sends for a primary record.\<close>

definition request_for :: "jsobj \<Rightarrow> jsobj" where
  "request_for item = request_params (field item ''title'') (field item ''year'') (getOMDBType (field item ''type''))"

text \<open>
  A lookup fails or finds nothing: the request is rejected, the payload cannot be read,
  it is the not-found sentinel, or its reshaping throws.
\<close>

definition lookup_fails :: "omdb_api \<Rightarrow> nat \<Rightarrow> jsobj \<Rightarrow> bool" where
  "lookup_fails omdb n item =
     (case api_get omdb n (request_for item) of
        Inl error \<Rightarrow> True
      | Inr payload \<Rightarrow>
          (case get_prop payload ''Response'' of
             Inl error \<Rightarrow> True
           | Inr response \<Rightarrow>
               response = Str (utf16 ''False'') \<or> isl (transformOMDBData omdb payload)))"

subsection \<open>The batched enrichment\<close>

text \<open>
  \<^verbatim>\<open>ApiService.enhanceWithOMDBData(tmdbItems, maxConcurrent = 5)\<close>. The argument is an
  array here, so the \<^verbatim>\<open>Array.isArray\<close> half of the guard is settled by the type.

  \<open>enhance_item\<close> is the \<^verbatim>\<open>async\<close> callback given to \<^verbatim>\<open>batch.map\<close>: a promise that ends
  fulfilled or rejected. Its \<^verbatim>\<open>try\<close> block looks the record up and merges, its \<^verbatim>\<open>catch\<close>
  returns the record as it came. The callbacks of a batch start in the order of the
  batch, each sending its request at once, so the record at place \<open>k\<close> of the batch sends
  request number \<open>issued + k\<close>, where \<open>issued\<close> requests were sent before the batch.
\<close>

definition enhance_item :: "omdb_api \<Rightarrow> nat \<Rightarrow> jsobj \<Rightarrow> js_error + jsobj" where
  "enhance_item omdb n item =
     (case (case searchByTitle omdb n (field item ''title'') (field item ''year'') (getOMDBType (field item ''type'')) of
              Some omdbData \<Rightarrow> mergeBasicData item omdbData
            | None \<Rightarrow> Inr item) of
        Inl error \<Rightarrow> Inr item
      | Inr enhanced \<Rightarrow> Inr enhanced)"

text \<open>\<^verbatim>\<open>Array.prototype.slice(start, end)\<close> on integers: a negative index counts from the end.\<close>

definition slice :: "'a list \<Rightarrow> int \<Rightarrow> int \<Rightarrow> 'a list" where
  "slice xs start end =
     (let len = int (length xs);
          k = (if start < 0 then max (len + start) 0 else min start len);
          final = (if end < 0 then max (len + end) 0 else min end len)
      in take (nat (final - k)) (drop (nat k) xs))"

text \<open>
  The \<^verbatim>\<open>for (let i = 0; i < tmdbItems.length; i += maxConcurrent)\<close> loop, with
  \<^verbatim>\<open>enhancedItems\<close> as accumulator. \<open>settled issued\<close> is the order in which the lookups
  of the batch that starts after \<open>issued\<close> requests complete. The loop is not bound to
  end, so it is a partial function: \<open>None\<close> when it never returns.
\<close>

partial_function (option) enhance_loop ::
  "omdb_api \<Rightarrow> (nat \<Rightarrow> nat list) \<Rightarrow> int \<Rightarrow> jsobj list \<Rightarrow> int \<Rightarrow> nat \<Rightarrow> jsobj list
     \<Rightarrow> (js_error + jsobj list) option" where
  "enhance_loop omdb settled maxConcurrent tmdbItems i issued enhancedItems =
     (if i < int (length tmdbItems) then
        (let batch = slice tmdbItems i (i + maxConcurrent);
             batchPromises = map (\<lambda>(k, item). enhance_item omdb k item) (enumerate issued batch)
         in case Promise_all batchPromises (settled issued) of
              None \<Rightarrow> None
            | Some (Inl error) \<Rightarrow> Some (Inl error)
            | Some (Inr batchResults) \<Rightarrow>
                enhance_loop omdb settled maxConcurrent tmdbItems (i + maxConcurrent)
                  (issued + length batch) (enhancedItems @ batchResults))
      else Some (Inr enhancedItems))"

declare enhance_loop.simps [code]

definition enhanceWithOMDBData ::
  "omdb_api \<Rightarrow> (nat \<Rightarrow> nat list) \<Rightarrow> jsobj list \<Rightarrow> int \<Rightarrow> (js_error + jsobj list) option" where
  "enhanceWithOMDBData omdb settled tmdbItems maxConcurrent =
     (if length tmdbItems = 0 then Some (Inr tmdbItems)
      else enhance_loop omdb settled maxConcurrent tmdbItems 0 0 [])"

text \<open>
  Every lookup of every batch completes: the batch that starts at record \<open>n\<close> has
  \<open>min maxConcurrent (len - n)\<close> lookups, and \<open>settled n\<close> is an order of them.
\<close>

definition batches_settle :: "(nat \<Rightarrow> nat list) \<Rightarrow> int \<Rightarrow> nat \<Rightarrow> bool" where
  "batches_settle settled maxConcurrent len =
     (\<forall>n < len. completion_order (min (nat maxConcurrent) (len - n)) (settled n))"

text \<open>What the callback of a record resolves with, and the identifier of a record.\<close>

definition enriched :: "omdb_api \<Rightarrow> nat \<Rightarrow> jsobj \<Rightarrow> jsobj" where
  "enriched omdb n item =
     (case searchByTitle omdb n (field item ''title'') (field item ''year'') (getOMDBType (field item ''type'')) of
        Some omdbData \<Rightarrow> (case mergeBasicData item omdbData of Inr merged \<Rightarrow> merged | Inl error \<Rightarrow> item)
      | None \<Rightarrow> item)"

definition item_id :: "jsobj \<Rightarrow> jsval" where
  "item_id item = field item ''id''"

subsection \<open>Example data\<close>

text \<open>A cache for two entries that holds \<open>A\<close> and \<open>B\<close>, inserted in this order.\<close>

definition abc_cache :: "(string, nat) ApiCache" where
  "abc_cache = ApiCache_set (ApiCache_set (new_ApiCache 2 1000) 0 ''A'' 1) 5 ''B'' 2"

text \<open>Calls that fail the same way every time.\<close>

definition unauthorized_call :: "nat \<Rightarrow> js_error + jsval" where
  "unauthorized_call n = Inl authentication_failure"

definition throttled_call :: "nat \<Rightarrow> js_error + jsval" where
  "throttled_call n = Inl rate_limited"

text \<open>A call that is rate-limited once and then fails on the network, every time.\<close>

definition throttled_then_offline :: "nat \<Rightarrow> js_error + jsval" where
  "throttled_then_offline n = (if n = 0 then Inl rate_limited else Inl NetworkError)"

text \<open>A call that is rate-limited twice and then answers 7.\<close>

definition throttled_twice :: "nat \<Rightarrow> js_error + jsval" where
  "throttled_twice n = (if n < 2 then Inl rate_limited else Inr (Num (Finite 7)))"

text \<open>Two genre lists that share the id 18 under different names.\<close>

definition movie_genres :: "genre list" where
  "movie_genres = [\<lparr>genre_id = 28, name = ''Action''\<rparr>, \<lparr>genre_id = 18, name = ''Drama''\<rparr>]"

definition tv_genres :: "genre list" where
  "tv_genres = [\<lparr>genre_id = 18, name = ''Drama (TV)''\<rparr>, \<lparr>genre_id = 10765, name = ''Sci-Fi''\<rparr>]"

definition fresh_service :: api_service where
  "fresh_service = \<lparr>genreCache = Map.empty\<rparr>"

text \<open>
  Seven primary records with the identifiers 1 to 7; a secondary source whose fourth
  request (number 3) is rejected and whose other requests find a longer plot; lookups
  that complete last first within each batch; a source that is out of reach; lookups
  that complete in the order of the batch.
\<close>

definition numbered_item :: "nat \<Rightarrow> jsobj" where
  "numbered_item k =
     [(''id'', Num (Finite (real k))), (''title'', Str (utf16 ''Title'')),
      (''type'', Str (utf16 ''movie'')), (''plot'', Str (utf16 ''short''))]"

definition seven_items :: "jsobj list" where
  "seven_items = map numbered_item [1..<8]"

definition flaky_omdb :: omdb_api where
  "flaky_omdb =
     \<lparr>api_get = (\<lambda>n params. if n = 3 then Inl NetworkError
                   else Inr (Obj [(''Response'', Str (utf16 ''True'')),
                          (''Plot'', Str (utf16 ''a considerably longer plot description''))])),
      transformOMDBData = (\<lambda>data. Inr [(''plot'', read_prop data ''Plot'')])\<rparr>"

definition last_first :: "nat \<Rightarrow> nat \<Rightarrow> nat \<Rightarrow> nat list" where
  "last_first batchSize len n = rev [0..<min batchSize (len - n)]"

definition offline :: omdb_api where
  "offline = \<lparr>api_get = (\<lambda>n params. Inl NetworkError), transformOMDBData = (\<lambda>data. Inl TypeError)\<rparr>"

definition in_order :: "nat \<Rightarrow> nat \<Rightarrow> nat list" where
  "in_order batchSize n = [0..<batchSize]"

text \<open>
  An enrichment record with the longer plot of the merge example of the specification
  (the records above have the short one), and \<^verbatim>\<open>join\<close> on an array of strings.
\<close>

definition found_record :: jsobj where
  "found_record = [(''plot'', Str (utf16 ''a considerably longer plot description''))]"

definition long_plot :: jsval where
  "long_plot = Str (utf16 ''a considerably longer plot description'')"

fun element_text :: "jsval \<Rightarrow> jsstring" where
  "element_text (Str s) = s"
| "element_text v = []"

fun join_names :: "jsval list \<Rightarrow> jsstring \<Rightarrow> jsstring" where
  "join_names [] separator = []"
| "join_names [x] separator = element_text x"
| "join_names (x # xs) separator = element_text x @ separator @ join_names xs separator"

section \<open>Properties\<close>

subsection \<open>The response cache\<close>

lemma length_delete_le: "length (AList.delete k al) \<le> length al"
  by (simp add: AList.delete_eq)

lemma length_update_le: "length (AList.update k v al) \<le> Suc (length al)"
  by (induction al) auto

lemma cache_set_evicted:
  "cache (ApiCache_set c now key d) =
     AList.update key \<lparr>data = d, expiry = now + ttl c\<rparr> (evicted c)"
  by (simp add: ApiCache_set_def evicted_def Let_def split: option.splits)

lemma maxSize_set [simp]: "maxSize (ApiCache_set c now key d) = maxSize c"
  by (simp add: ApiCache_set_def Let_def split: option.splits)

lemma maxSize_get [simp]: "maxSize (snd (ApiCache_get c now key)) = maxSize c"
  by (simp add: ApiCache_get_def split: option.splits)

lemma map_of_set:
  "map_of (cache (ApiCache_set c now key d)) key = Some \<lparr>data = d, expiry = now + ttl c\<rparr>"
  by (simp add: cache_set_evicted update_conv')

lemma evicted_full:
  assumes "distinct (map fst (cache c))" and "int (length (cache c)) = maxSize c"
    and "cache c = (k0, e0) # rest"
  shows "evicted c = rest"
proof -
  have "k0 \<notin> fst ` set rest" using assms(1,3) by simp
  then have "AList.delete k0 rest = rest" by (simp add: delete_id)
  then show ?thesis using assms(2,3) by (simp add: evicted_def first_key_def)
qed

lemma evicted_bound:
  assumes "1 \<le> maxSize c" and "int (length (cache c)) \<le> maxSize c"
  shows "int (length (evicted c)) < maxSize c"
proof (cases "cache c")
  case Nil
  with assms show ?thesis by (simp add: evicted_def first_key_def)
next
  case (Cons p rest)
  obtain k e where p: "p = (k, e)" by (cases p)
  have "length (AList.delete k ((k, e) # rest)) \<le> length rest"
    by (simp add: AList.delete_eq)
  then show ?thesis
    using assms unfolding evicted_def first_key_def Cons p by auto
qed

lemma set_bound:
  assumes "1 \<le> maxSize c" and "int (ApiCache_size c) \<le> maxSize c"
  shows "int (ApiCache_size (ApiCache_set c now key d)) \<le> maxSize c"
  using evicted_bound[of c] assms
    length_update_le[of key "\<lparr>data = d, expiry = now + ttl c\<rparr>" "evicted c"]
  by (simp add: ApiCache_size_def cache_set_evicted)

lemma get_bound: "ApiCache_size (snd (ApiCache_get c now key)) \<le> ApiCache_size c"
  by (simp add: ApiCache_get_def ApiCache_size_def length_delete_le split: option.splits)

lemma apply_op_bound:
  assumes "1 \<le> maxSize c" and "int (ApiCache_size c) \<le> maxSize c"
  shows "maxSize (apply_op c op) = maxSize c \<and> int (ApiCache_size (apply_op c op)) \<le> maxSize c"
proof (cases op)
  case (Pair now x)
  show ?thesis
  proof (cases x)
    case (Get key)
    then show ?thesis using assms get_bound[of c now key] Pair by simp
  next
    case (Set key d)
    then show ?thesis using assms set_bound[of c now key d] Pair by simp
  next
    case Clear
    then show ?thesis using assms Pair by (simp add: ApiCache_clear_def ApiCache_size_def)
  next
    case Size
    then show ?thesis using assms Pair by simp
  qed
qed

lemma run_ops_bound:
  "1 \<le> maxSize c \<Longrightarrow> int (ApiCache_size c) \<le> maxSize c \<Longrightarrow>
   maxSize (run_ops c ops) = maxSize c \<and> int (ApiCache_size (run_ops c ops)) \<le> maxSize c"
  unfolding run_ops_def
proof (induction ops arbitrary: c)
  case Nil
  then show ?case by simp
next
  case (Cons op ops)
  from apply_op_bound[OF Cons.prems, of op]
  have 1: "maxSize (apply_op c op) = maxSize c"
    and 2: "int (ApiCache_size (apply_op c op)) \<le> maxSize c"
    by simp_all
  from Cons.IH[of "apply_op c op"] 1 2 Cons.prems show ?case by simp
qed

text \<open>
  The keys of the store stay pairwise distinct, as those of a \<^verbatim>\<open>Map\<close> are: the
  hypothesis of this kind below holds of every cache the program can build.
\<close>

lemma apply_op_distinct:
  "distinct (map fst (cache c)) \<Longrightarrow> distinct (map fst (cache (apply_op c op)))"
proof (cases op)
  case (Pair now x)
  assume d: "distinct (map fst (cache c))"
  have e: "distinct (map fst (evicted c))"
    using d by (simp add: evicted_def distinct_delete split: option.splits)
  show ?thesis
    using d e Pair
    by (cases x)
      (simp_all add: ApiCache_get_def cache_set_evicted distinct_update distinct_delete
        ApiCache_clear_def split: option.splits)
qed

lemma run_ops_distinct: "distinct (map fst (cache (run_ops (new_ApiCache m t) ops)))"
proof -
  have "distinct (map fst (cache c)) \<Longrightarrow> distinct (map fst (cache (foldl apply_op c ops)))" for c :: "('a, 'b) ApiCache"
    by (induction ops arbitrary: c) (simp_all add: apply_op_distinct)
  then show ?thesis by (simp add: run_ops_def new_ApiCache_def)
qed

text \<open>
  Claim C4. When \<^verbatim>\<open>set\<close> is called on a store that holds \<open>maxSize\<close> entries, exactly the
  entry that was inserted first is evicted and then the new entry is added: the store
  afterwards is the rest of the old store, in its order, with the new entry set. The
  order is that of the first insertion of each key (a key that is set again keeps its
  place), and reads do not change it: a \<^verbatim>\<open>get\<close> leaves the store as it was or removes
  the key it read (when expired), and never reorders. In the example of the
  specification, a cache for two entries into which \<open>A\<close>, \<open>B\<close>, \<open>C\<close> are inserted in
  this order loses \<open>A\<close>, while \<open>B\<close> and \<open>C\<close> can still be read.
\<close>

theorem fifo_eviction:
  assumes "distinct (map fst (cache c))"
    and "int (length (cache c)) = maxSize c"
    and "cache c = (k0, e0) # rest"
  shows "cache (ApiCache_set c now key d) = AList.update key \<lparr>data = d, expiry = now + ttl c\<rparr> rest \<and>
         (cache (snd (ApiCache_get c t k)) = cache c \<or>
          cache (snd (ApiCache_get c t k)) = AList.delete k (cache c))"
  using evicted_full[OF assms]
  by (simp add: cache_set_evicted ApiCache_get_def split: option.splits)

theorem fifo_eviction_witness:
  "distinct (map fst (cache abc_cache)) \<and> int (length (cache abc_cache)) = maxSize abc_cache \<and>
   cache abc_cache = (''A'', \<lparr>data = 1, expiry = 1000\<rparr>) # [(''B'', \<lparr>data = 2, expiry = 1005\<rparr>)] \<and>
   map fst (cache (ApiCache_set abc_cache 10 ''C'' 3)) = [''B'', ''C''] \<and>
   fst (ApiCache_get (ApiCache_set abc_cache 10 ''C'' 3) 20 ''A'') = None \<and>
   fst (ApiCache_get (ApiCache_set abc_cache 10 ''C'' 3) 20 ''B'') = Some 2 \<and>
   fst (ApiCache_get (ApiCache_set abc_cache 10 ''C'' 3) 20 ''C'') = Some 3"
proof -
  have c: "cache abc_cache = (''A'', \<lparr>data = 1, expiry = 1000\<rparr>) # [(''B'', \<lparr>data = 2, expiry = 1005\<rparr>)]"
    by (simp add: abc_cache_def new_ApiCache_def ApiCache_set_def Let_def first_key_def)
  have m: "maxSize abc_cache = 2" "ttl abc_cache = 1000"
    by (simp_all add: abc_cache_def new_ApiCache_def ApiCache_set_def Let_def first_key_def)
  have d: "distinct (map fst (cache abc_cache))" by (simp add: c)
  have f: "int (length (cache abc_cache)) = maxSize abc_cache" by (simp add: c m)
  from fifo_eviction[OF d f c, of 10 "''C''" 3]
  have s: "cache (ApiCache_set abc_cache 10 ''C'' 3)
             = [(''B'', \<lparr>data = 2, expiry = 1005\<rparr>), (''C'', \<lparr>data = 3, expiry = 1010\<rparr>)]"
    by (simp add: m)
  show ?thesis using d f c by (simp add: s ApiCache_get_def)
qed

text \<open>
  Claim C5. An entry is stored at time \<open>t\<close> in a cache with time-to-live \<open>ttl\<close>. A
  \<^verbatim>\<open>get\<close> made \<open>ttl - 1\<close> milliseconds later returns the stored value and leaves the
  store as it is; a \<^verbatim>\<open>get\<close> made after it, \<open>ttl + 1\<close> milliseconds after the \<^verbatim>\<open>set\<close>,
  is a miss. Expiry is lazy: until that late read the entry is in the store, with expiry
  \<open>t + ttl\<close>, and the late read is what deletes it.
\<close>

theorem ttl_boundary:
  "fst (ApiCache_get (ApiCache_set c t key v) (t + ttl c - 1) key) = Some v \<and>
   snd (ApiCache_get (ApiCache_set c t key v) (t + ttl c - 1) key) = ApiCache_set c t key v \<and>
   fst (ApiCache_get (snd (ApiCache_get (ApiCache_set c t key v) (t + ttl c - 1) key))
          (t + ttl c + 1) key) = None \<and>
   map_of (cache (ApiCache_set c t key v)) key = Some \<lparr>data = v, expiry = t + ttl c\<rparr> \<and>
   cache (snd (ApiCache_get (ApiCache_set c t key v) (t + ttl c + 1) key))
     = AList.delete key (cache (ApiCache_set c t key v)) \<and>
   map_of (cache (snd (ApiCache_get (ApiCache_set c t key v) (t + ttl c + 1) key))) key = None"
  by (simp add: ApiCache_get_def map_of_set delete_conv')

theorem ttl_boundary_witness:
  "fst (ApiCache_get (ApiCache_set abc_cache 2000 ''B'' 7) 2999 ''B'') = Some 7 \<and>
   fst (ApiCache_get (snd (ApiCache_get (ApiCache_set abc_cache 2000 ''B'' 7) 2999 ''B''))
          3001 ''B'') = None \<and>
   map_of (cache (snd (ApiCache_get (ApiCache_set abc_cache 2000 ''B'' 7) 3001 ''B''))) ''B'' = None"
proof -
  have m: "2000 + ttl abc_cache - 1 = 2999" "2000 + ttl abc_cache + 1 = 3001"
    by (simp_all add: abc_cache_def new_ApiCache_def ApiCache_set_def Let_def first_key_def)
  from ttl_boundary[of abc_cache 2000 "''B''" 7] show ?thesis
    unfolding m by blast
qed

text \<open>
  Claim C10. A cache built with \<open>maxSize \<ge> 1\<close> never holds more than \<open>maxSize\<close> entries,
  whatever sequence of \<^verbatim>\<open>get\<close>, \<^verbatim>\<open>set\<close>, \<^verbatim>\<open>clear\<close> and \<^verbatim>\<open>size\<close> calls is made on it, at
  whatever times and on new or present keys.
\<close>

theorem size_never_exceeds_maxSize:
  "1 \<le> m \<Longrightarrow> int (ApiCache_size (run_ops (new_ApiCache m t) ops)) \<le> m"
  using run_ops_bound[of "new_ApiCache m t" ops]
  by (simp add: new_ApiCache_def ApiCache_size_def)

theorem size_never_exceeds_maxSize_witness:
  "(1 :: int) \<le> 2 \<and>
   int (ApiCache_size (run_ops (new_ApiCache 2 1000)
     [(0, Set ''A'' (1 :: nat)), (1, Set ''B'' 2), (2, Set ''C'' 3), (3, Get ''A''),
      (4, Set ''B'' 4), (5, Set ''D'' 5), (2000, Get ''D''), (2001, Set ''E'' 6)])) \<le> 2"
  using size_never_exceeds_maxSize[of 2 1000
    "[(0, Set ''A'' (1 :: nat)), (1, Set ''B'' 2), (2, Set ''C'' 3), (3, Get ''A''),
      (4, Set ''B'' 4), (5, Set ''D'' 5), (2000, Get ''D''), (2001, Set ''E'' 6)]"]
  by simp

subsection \<open>The page window\<close>

lemma page_loop_upto: "page_loop i e pages = pages @ [i..e]"
proof (induction i e pages rule: page_loop.induct)
  case (1 i e pages)
  show ?case
  proof (cases "i \<le> e")
    case True
    then show ?thesis using 1 by (subst page_loop.simps) (simp add: upto_rec1)
  next
    case False
    then show ?thesis by (subst page_loop.simps) simp
  qed
qed

lemma generatePageNumbers_upto:
  assumes "1 \<le> c" and "c \<le> t" and "0 \<le> mv"
  shows "generatePageNumbers c t mv = [window_start c t mv .. window_start c t mv + min mv t - 1]"
proof -
  define s0 where "s0 = max 1 (c - mv div 2)"
  define e where "e = min t (s0 + mv - 1)"
  define s1 where "s1 = (if e - s0 + 1 < mv then max 1 (e - mv + 1) else s0)"
  have g: "generatePageNumbers c t mv = [s1..e]"
    by (simp add: generatePageNumbers_def Let_def page_loop_upto s0_def e_def s1_def)
  have h: "0 \<le> mv div 2" "mv div 2 \<le> mv" using assms(3) by simp_all
  have s: "s1 = window_start c t mv \<and> e = s1 + min mv t - 1"
  proof (cases "1 \<le> c - mv div 2")
    case True
    then have s0: "s0 = c - mv div 2" by (simp add: s0_def)
    show ?thesis
    proof (cases "s0 + mv - 1 \<le> t")
      case True
      then have "e = s0 + mv - 1" by (simp add: e_def)
      then show ?thesis using True s0 \<open>1 \<le> c - mv div 2\<close> assms h
        by (simp add: s1_def window_start_def)
    next
      case False
      then have "e = t" by (simp add: e_def)
      then show ?thesis using False s0 \<open>1 \<le> c - mv div 2\<close> assms h
        by (simp add: s1_def window_start_def min_def max_def)
    qed
  next
    case False
    then have s0: "s0 = 1" by (simp add: s0_def)
    show ?thesis
    proof (cases "mv \<le> t")
      case True
      then have "e = mv" by (simp add: e_def s0)
      then show ?thesis using True s0 False assms h
        by (simp add: s1_def window_start_def min_def max_def)
    next
      case False
      then have "e = t" by (simp add: e_def s0)
      then show ?thesis using False s0 \<open>\<not> 1 \<le> c - mv div 2\<close> assms h
        by (simp add: s1_def window_start_def min_def max_def)
    qed
  qed
  with g show ?thesis by simp
qed

text \<open>
  Claim C8. For a current page \<open>c\<close> and a page count \<open>t\<close> with \<open>1 \<le> c \<le> t\<close>, and a window
  size \<open>maxVisible \<ge> 0\<close>, \<^verbatim>\<open>generatePageNumbers\<close> returns consecutive ascending page
  numbers, \<open>min maxVisible t\<close> of them, that start no lower than 1 and end no higher than
  \<open>t\<close>. The window starts \<open>maxVisible div 2\<close> pages before \<open>c\<close> where that fits; where it
  would reach below 1 or above \<open>t\<close> it is shifted just enough to fit (\<open>window_start\<close>),
  which keeps its full length. A window of at least one page contains \<open>c\<close>. The three
  examples of the specification hold.
\<close>

theorem page_window:
  assumes "1 \<le> c" and "c \<le> t" and "0 \<le> maxVisible"
  shows "generatePageNumbers c t maxVisible =
           [window_start c t maxVisible .. window_start c t maxVisible + min maxVisible t - 1] \<and>
         int (length (generatePageNumbers c t maxVisible)) = min maxVisible t \<and>
         1 \<le> window_start c t maxVisible \<and>
         window_start c t maxVisible + min maxVisible t - 1 \<le> t \<and>
         (1 \<le> maxVisible \<longrightarrow> c \<in> set (generatePageNumbers c t maxVisible)) \<and>
         generatePageNumbers 50 100 5 = [48, 49, 50, 51, 52] \<and>
         generatePageNumbers 1 100 5 = [1, 2, 3, 4, 5] \<and>
         generatePageNumbers 3 3 5 = [1, 2, 3]"
proof -
  note g = generatePageNumbers_upto[OF assms]
  have l: "int (length (generatePageNumbers c t maxVisible)) = min maxVisible t"
    using assms unfolding g by (simp add: window_start_def)
  have b: "1 \<le> window_start c t maxVisible" "window_start c t maxVisible + min maxVisible t - 1 \<le> t"
    using assms by (auto simp: window_start_def)
  have m: "1 \<le> maxVisible \<longrightarrow> c \<in> set (generatePageNumbers c t maxVisible)"
    using assms unfolding g by (auto simp: window_start_def)
  have e1: "generatePageNumbers 50 100 5 = [48, 49, 50, 51, 52]"
    by (simp add: generatePageNumbers_def Let_def page_loop_upto upto_rec1)
  have e2: "generatePageNumbers 1 100 5 = [1, 2, 3, 4, 5]"
    by (simp add: generatePageNumbers_def Let_def page_loop_upto upto_rec1)
  have e3: "generatePageNumbers 3 3 5 = [1, 2, 3]"
    by (simp add: generatePageNumbers_def Let_def page_loop_upto upto_rec1)
  show ?thesis using g l b m e1 e2 e3 by blast
qed

theorem page_window_witness:
  "(1 :: int) \<le> 98 \<and> (98 :: int) \<le> 100 \<and> (0 :: int) \<le> 5 \<and> (1 :: int) \<le> 5 \<and>
   generatePageNumbers 98 100 5 = [96, 97, 98, 99, 100] \<and>
   int (length (generatePageNumbers 98 100 5)) = 5 \<and>
   98 \<in> set (generatePageNumbers 98 100 5)"
  using page_window[of 98 100 5] by (simp add: window_start_def upto_rec1)

subsection \<open>The retry helper\<close>

lemma retry_loop_all_fail:
  assumes "\<forall>n. called \<le> n \<and> n < called + (nat maxRetries - i) \<longrightarrow> apiCall n = Inl (err n)"
    and "int i < maxRetries"
  shows "retry_loop apiCall maxRetries delay i called waited =
           \<lparr>outcome = Threw (err (called + (nat maxRetries - i) - 1)),
            calls = called + (nat maxRetries - i),
            waits = waited @ map (\<lambda>k. delay * int k) [i + 1..<nat maxRetries]\<rparr>"
  using assms
proof (induction "nat maxRetries - i" arbitrary: i called waited)
  case 0
  then show ?case by simp
next
  case (Suc d)
  have c: "apiCall called = Inl (err called)" using Suc.prems(1) Suc.hyps(2) by simp
  show ?case
  proof (cases "int i = maxRetries - 1")
    case True
    then have "nat maxRetries - i = 1" by linarith
    then show ?thesis using True c Suc.prems(2)
      by (subst retry_loop.simps) simp
  next
    case False
    with Suc.prems(2) have lt: "int (i + 1) < maxRetries" by simp
    have d: "d = nat maxRetries - (i + 1)" using Suc.hyps(2) by simp
    have a: "\<forall>n. called + 1 \<le> n \<and> n < called + 1 + (nat maxRetries - (i + 1)) \<longrightarrow>
               apiCall n = Inl (err n)"
      using Suc.prems(1) lt by auto
    have u: "[i + 1..<nat maxRetries] = (i + 1) # [i + 1 + 1..<nat maxRetries]"
      using lt by (simp add: upt_conv_Cons)
    have ih: "retry_loop apiCall maxRetries delay (i + 1) (called + 1) (waited @ [delay * (int i + 1)]) =
           \<lparr>outcome = Threw (err (called + 1 + (nat maxRetries - (i + 1)) - 1)),
            calls = called + 1 + (nat maxRetries - (i + 1)),
            waits = (waited @ [delay * (int i + 1)]) @
                      map (\<lambda>k. delay * int k) [i + 1 + 1..<nat maxRetries]\<rparr>"
      using Suc.hyps(1)[OF d a lt] .
    have e: "called + 1 + (nat maxRetries - (i + 1)) = called + (nat maxRetries - i)"
      using lt by linarith
    have step: "retry_loop apiCall maxRetries delay i called waited =
          retry_loop apiCall maxRetries delay (i + 1) (called + 1) (waited @ [delay * (int i + 1)])"
      using False c Suc.prems(2) by (subst retry_loop.simps) simp
    show ?thesis
      unfolding step ih u e by simp
  qed
qed

lemma retryApiCall_all_fail:
  assumes "1 \<le> maxRetries" and "\<forall>n < nat maxRetries. apiCall n = Inl (err n)"
  shows "retryApiCall apiCall maxRetries delay =
           \<lparr>outcome = Threw (err (nat maxRetries - 1)), calls = nat maxRetries,
            waits = map (\<lambda>k. delay * int k) [1..<nat maxRetries]\<rparr>"
  unfolding retryApiCall_def
  using retry_loop_all_fail[of 0 maxRetries 0 apiCall err delay "[]"] assms by simp

text \<open>
  Claim C6, as the specification states it: a call that fails with an authentication
  failure is never retried. \<^verbatim>\<open>retryApiCall\<close> does not look at the exception it catches.
  With the default three attempts and one second of delay, a call that answers 401 every
  time is made three times, after waits of one and two seconds, before the failure
  reaches the caller.
\<close>

theorem auth_failure_is_retried:
  "calls (retryApiCall unauthorized_call 3 1000) = 3 \<and>
   waits (retryApiCall unauthorized_call 3 1000) = [1000, 2000] \<and>
   outcome (retryApiCall unauthorized_call 3 1000) = Threw authentication_failure"
  by (simp add: retryApiCall_def retry_loop.simps unauthorized_call_def)

text \<open>
  Claim C6, amended. A call that fails with an authentication failure at every attempt
  is treated as any other failing call: it is made \<open>maxRetries\<close> times (for
  \<open>maxRetries \<ge> 1\<close>), and only then is the authentication failure thrown to the caller.
  No further attempt follows the first failure exactly when \<open>maxRetries = 1\<close>.
\<close>

theorem auth_failure_surfaces_after_all_attempts:
  assumes "1 \<le> maxRetries"
    and "\<forall>n < nat maxRetries. apiCall n = Inl authentication_failure"
  shows "calls (retryApiCall apiCall maxRetries delay) = nat maxRetries \<and>
         outcome (retryApiCall apiCall maxRetries delay) = Threw authentication_failure \<and>
         (calls (retryApiCall apiCall maxRetries delay) = 1) = (maxRetries = 1)"
  using retryApiCall_all_fail[of maxRetries apiCall "\<lambda>n. authentication_failure" delay] assms
  by auto

theorem auth_failure_surfaces_after_all_attempts_witness:
  "calls (retryApiCall unauthorized_call 2 500) = 2 \<and>
   outcome (retryApiCall unauthorized_call 2 500) = Threw authentication_failure"
  using auth_failure_surfaces_after_all_attempts[of 2 unauthorized_call 500]
  by (simp add: unauthorized_call_def)

lemma retry_loop_succeeds:
  assumes "\<forall>n. called \<le> n \<and> n < called + j \<longrightarrow> apiCall n = Inl (err n)"
    and "apiCall (called + j) = Inr v"
    and "int (i + j) < maxRetries"
  shows "retry_loop apiCall maxRetries delay i called waited =
           \<lparr>outcome = Returned v, calls = called + j + 1,
            waits = waited @ map (\<lambda>k. delay * int k) [i + 1..<i + j + 1]\<rparr>"
  using assms
proof (induction j arbitrary: i called waited)
  case 0
  then show ?case by (subst retry_loop.simps) simp
next
  case (Suc j)
  have c: "apiCall called = Inl (err called)" using Suc.prems(1) by simp
  have ne: "int i \<noteq> maxRetries - 1" and lt: "int i < maxRetries" using Suc.prems(3) by simp_all
  have a: "\<forall>n. called + 1 \<le> n \<and> n < called + 1 + j \<longrightarrow> apiCall n = Inl (err n)"
    using Suc.prems(1) by auto
  have s: "apiCall (called + 1 + j) = Inr v" using Suc.prems(2) by simp
  have l: "int (i + 1 + j) < maxRetries" using Suc.prems(3) by simp
  have u: "[i + 1..<i + Suc j + 1] = (i + 1) # [i + 1 + 1..<i + 1 + j + 1]"
    by (simp add: upt_conv_Cons)
  have ih: "retry_loop apiCall maxRetries delay (i + 1) (called + 1) (waited @ [delay * (int i + 1)]) =
           \<lparr>outcome = Returned v, calls = called + 1 + j + 1,
            waits = (waited @ [delay * (int i + 1)]) @
                      map (\<lambda>k. delay * int k) [i + 1 + 1..<i + 1 + j + 1]\<rparr>"
    using Suc.IH[OF a s l] .
  have step: "retry_loop apiCall maxRetries delay i called waited =
        retry_loop apiCall maxRetries delay (i + 1) (called + 1) (waited @ [delay * (int i + 1)])"
    using c ne lt by (subst retry_loop.simps) simp
  show ?case unfolding step ih u by simp
qed

text \<open>
  For comparison with the claim below: a call whose first \<open>j\<close> attempts fail and whose
  next attempt, still within the ceiling, returns \<open>v\<close> is made \<open>j + 1\<close> times, after the
  waits \<open>delay, ..., j * delay\<close>, and \<open>v\<close> is returned.
\<close>

lemma retryApiCall_succeeds:
  assumes "\<forall>n < j. apiCall n = Inl (err n)" and "apiCall j = Inr v" and "int j < maxRetries"
  shows "retryApiCall apiCall maxRetries delay =
           \<lparr>outcome = Returned v, calls = j + 1, waits = map (\<lambda>k. delay * int k) [1..<j + 1]\<rparr>"
  unfolding retryApiCall_def
  using retry_loop_succeeds[of 0 j apiCall err v 0 maxRetries delay "[]"] assms by simp

text \<open>
  Claim C7. A call that fails at every attempt, with a rate-limit response, a network
  failure or any other exception, the same or another from one attempt to the next
  (\<open>err n\<close> at attempt \<open>n\<close>), is attempted again until \<open>maxRetries\<close> attempts have been
  made in all (\<open>maxRetries \<ge> 1\<close>), never fewer and never more. Before attempt number
  \<open>k + 1\<close> the helper waits \<open>delay * k\<close> milliseconds, so the waits are
  \<open>delay, 2 * delay, ..., (maxRetries - 1) * delay\<close>. After the last attempt the helper
  throws to the caller the exception that this attempt threw, itself and unchanged: the
  exception of the call, not a new or a wrapped one. For a call that fails the same way
  at every attempt that is this failure.
\<close>

theorem retry_linear_backoff:
  assumes "1 \<le> maxRetries" and "\<forall>n < nat maxRetries. apiCall n = Inl (err n)"
  shows "calls (retryApiCall apiCall maxRetries delay) = nat maxRetries \<and>
         waits (retryApiCall apiCall maxRetries delay) = map (\<lambda>k. delay * int k) [1..<nat maxRetries] \<and>
         outcome (retryApiCall apiCall maxRetries delay) = Threw (err (nat maxRetries - 1))"
  using retryApiCall_all_fail[of maxRetries apiCall err delay] assms by simp

theorem retry_linear_backoff_witness:
  "calls (retryApiCall throttled_then_offline 3 1000) = 3 \<and>
   waits (retryApiCall throttled_then_offline 3 1000) = [1000, 2000] \<and>
   outcome (retryApiCall throttled_then_offline 3 1000) = Threw NetworkError \<and>
   calls (retryApiCall throttled_call 3 1000) = 3 \<and>
   waits (retryApiCall throttled_call 3 1000) = [1000, 2000] \<and>
   outcome (retryApiCall throttled_call 3 1000) = Threw rate_limited"
  using retry_linear_backoff[of 3 throttled_then_offline
      "\<lambda>n. if n = 0 then rate_limited else NetworkError" 1000]
    retry_linear_backoff[of 3 throttled_call "\<lambda>n. rate_limited" 1000]
  by (simp add: throttled_then_offline_def throttled_call_def upt_conv_Cons)

text \<open>A retry that succeeds is returned: two rate-limit responses, then the answer.\<close>

lemma retry_returns_the_answer:
  "retryApiCall throttled_twice 3 1000 =
     \<lparr>outcome = Returned (Num (Finite 7)), calls = 3, waits = [1000, 2000]\<rparr>"
  using retryApiCall_succeeds[of 2 throttled_twice "\<lambda>n. rate_limited" "Num (Finite 7)" 3 1000]
  by (simp add: throttled_twice_def upt_conv_Cons)

subsection \<open>Promises\<close>

lemma those_eq_Some: "those xs = Some ys \<longleftrightarrow> xs = map Some ys"
proof (induction xs arbitrary: ys)
  case Nil
  then show ?case by auto
next
  case (Cons x xs)
  then show ?case by (cases x; cases ys) (auto split: option.splits)
qed

lemma those_eq_None: "those xs = None \<longleftrightarrow> None \<in> set xs"
  by (induction xs) (auto split: option.splits)

text \<open>
  While some slot is empty and every empty slot's promise is still to settle, promises
  that all fulfil resolve the whole with their values in index order, whatever the order
  of settling.
\<close>

lemma settle_all_fulfilled:
  assumes "length slots = length vs" and "length ps = length vs"
    and "\<forall>k < length vs. ps ! k = Inr (vs ! k)"
    and "\<forall>k < length vs. slots ! k = None \<or> slots ! k = Some (vs ! k)"
    and "\<forall>k < length vs. slots ! k = None \<longrightarrow> k \<in> set order"
    and "None \<in> set slots"
  shows "settle_all ps order slots = Some (Inr vs)"
  using assms
proof (induction order arbitrary: slots)
  case Nil
  then show ?case by (auto simp: in_set_conv_nth)
next
  case (Cons k order)
  show ?case
  proof (cases "k < length ps")
    case False
    have "\<forall>j < length vs. slots ! j = None \<longrightarrow> j \<in> set order"
      using Cons.prems(2,5) False by auto
    from Cons.IH[OF Cons.prems(1,2,3,4) this Cons.prems(6)] False show ?thesis by simp
  next
    case True
    let ?s = "slots[k := Some (vs ! k)]"
    have pk: "ps ! k = Inr (vs ! k)" using True Cons.prems(2,3) by simp
    have l: "length ?s = length vs" using Cons.prems(1) by simp
    have v: "\<forall>j < length vs. ?s ! j = None \<or> ?s ! j = Some (vs ! j)"
    proof (intro allI impI)
      fix j assume j: "j < length vs"
      show "?s ! j = None \<or> ?s ! j = Some (vs ! j)"
      proof (cases "j = k")
        case True
        then show ?thesis using j Cons.prems(1) by simp
      next
        case False
        then show ?thesis using j Cons.prems(4) by simp
      qed
    qed
    show ?thesis
    proof (cases "those ?s")
      case None
      then have n: "None \<in> set ?s" by (simp add: those_eq_None)
      have o: "\<forall>j < length vs. ?s ! j = None \<longrightarrow> j \<in> set order"
      proof (intro allI impI)
        fix j assume j: "j < length vs" and e: "?s ! j = None"
        then have "j \<noteq> k" using Cons.prems(1) by auto
        then show "j \<in> set order" using j e Cons.prems(5) by auto
      qed
      from Cons.IH[OF l Cons.prems(2,3) v o n] True pk None show ?thesis by simp
    next
      case (Some ws)
      then have "?s = map Some ws" by (simp add: those_eq_Some)
      then have "ws = vs"
        using v l by (auto simp: list_eq_iff_nth_eq)
      then show ?thesis using True pk Some by simp
    qed
  qed
qed

lemma Promise_all_fulfilled:
  assumes "completion_order (length ps) order"
    and "length vs = length ps" and "\<forall>k < length ps. ps ! k = Inr (vs ! k)"
  shows "Promise_all ps order = Some (Inr vs)"
proof (cases "ps = []")
  case True
  then show ?thesis using assms(2) by (simp add: Promise_all_def)
next
  case False
  then have "None \<in> set (replicate (length ps) (None :: 'b option))" by simp
  moreover have "\<forall>k < length vs. k \<in> set order"
    using assms(1,2) by (simp add: completion_order_def)
  ultimately have "settle_all ps order (replicate (length ps) None) = Some (Inr vs)"
    using assms(2,3) by (intro settle_all_fulfilled) simp_all
  then show ?thesis using False by (simp add: Promise_all_def)
qed

subsection \<open>The genre registry\<close>

lemma uniqueGenres_snoc: "uniqueGenres (xs @ [x]) = add_if_new (uniqueGenres xs) x"
  by (simp add: uniqueGenres_def)

lemma find_append_first:
  "find P (xs @ ys) = (case find P xs of None \<Rightarrow> find P ys | Some x \<Rightarrow> Some x)"
  by (induction xs) auto

lemma uniqueGenres_ids: "genre_id ` set (uniqueGenres xs) = genre_id ` set xs"
proof (induction xs rule: rev_induct)
  case Nil
  then show ?case by (simp add: uniqueGenres_def)
next
  case (snoc x xs)
  show ?case
  proof (cases "find (\<lambda>g. genre_id g = genre_id x) (uniqueGenres xs)")
    case None
    then show ?thesis using snoc by (simp add: uniqueGenres_snoc add_if_new_def)
  next
    case (Some g)
    then have "g \<in> set (uniqueGenres xs)" "genre_id g = genre_id x"
      by (auto simp: find_Some_iff)
    then have "genre_id x \<in> genre_id ` set (uniqueGenres xs)" by (metis imageI)
    then show ?thesis using Some snoc by (auto simp: uniqueGenres_snoc add_if_new_def)
  qed
qed

lemma uniqueGenres_distinct: "distinct (map genre_id (uniqueGenres xs))"
proof (induction xs rule: rev_induct)
  case Nil
  then show ?case by (simp add: uniqueGenres_def)
next
  case (snoc x xs)
  then show ?case
    by (auto simp: uniqueGenres_snoc add_if_new_def find_None_iff)
qed

lemma uniqueGenres_first:
  "g \<in> set (uniqueGenres xs) \<Longrightarrow> find (\<lambda>h. genre_id h = genre_id g) xs = Some g"
proof (induction xs rule: rev_induct)
  case Nil
  then show ?case by (simp add: uniqueGenres_def)
next
  case (snoc x xs)
  show ?case
  proof (cases "g \<in> set (uniqueGenres xs)")
    case True
    then show ?thesis using snoc.IH by (simp add: find_append_first)
  next
    case False
    with snoc.prems have gx: "g = x"
      and new: "find (\<lambda>h. genre_id h = genre_id x) (uniqueGenres xs) = None"
      by (auto simp: uniqueGenres_snoc add_if_new_def split: if_splits)
    from new have "genre_id x \<notin> genre_id ` set (uniqueGenres xs)"
      by (auto simp: find_None_iff)
    then have "genre_id x \<notin> genre_id ` set xs" by (simp add: uniqueGenres_ids)
    then have "\<not> (\<exists>h. h \<in> set xs \<and> genre_id h = genre_id x)"
      by (metis imageI)
    then have "find (\<lambda>h. genre_id h = genre_id x) xs = None"
      by (simp add: find_None_iff)
    then show ?thesis using gx by (simp add: find_append_first)
  qed
qed

lemma uniqueGenres_length: "length (uniqueGenres xs) = card (genre_id ` set xs)"
proof -
  have "length (uniqueGenres xs) = length (map genre_id (uniqueGenres xs))" by simp
  also have "\<dots> = card (set (map genre_id (uniqueGenres xs)))"
    using uniqueGenres_distinct[of xs] by (simp only: distinct_card)
  also have "\<dots> = card (genre_id ` set xs)" by (simp add: uniqueGenres_ids)
  finally show ?thesis .
qed

lemma getGenres_first_call:
  assumes "genreCache s ''all'' = None" and "completion_order 2 order"
  shows "getGenres s order (Inr movieGenres) (Inr tvGenres) =
           (Some (Inr (uniqueGenres (movieGenres @ tvGenres))),
            s\<lparr>genreCache := (genreCache s)(''all'' \<mapsto> uniqueGenres (movieGenres @ tvGenres))\<rparr>)"
proof -
  have "Promise_all [Inr movieGenres, Inr tvGenres :: js_error + genre list] order
          = Some (Inr [movieGenres, tvGenres])"
    using assms(2)
    by (intro Promise_all_fulfilled) (simp_all add: nth_Cons numeral_2_eq_2 split: nat.splits)
  then show ?thesis using assms(1) by (simp add: getGenres_def Let_def)
qed

text \<open>
  Claim C9. On a registry with nothing cached, with both fetches succeeding (in
  whichever order they complete), \<^verbatim>\<open>getGenres\<close> returns the concatenation of the movie
  and the series genres with later duplicates of an id dropped: no id occurs twice, the
  ids are those of the two lists, each entry is the first genre of its id in the
  concatenation (so it carries the first-seen name), and there are as many entries as
  distinct ids. The result is stored, and every later call returns that same list and
  leaves the registry as it is, whatever the fetches would now answer and whether or not
  they would complete: a later call does not consult them.
\<close>

theorem genre_registry:
  assumes "genreCache s ''all'' = None" and "completion_order 2 order"
  shows "fst (getGenres s order (Inr movieGenres) (Inr tvGenres))
           = Some (Inr (uniqueGenres (movieGenres @ tvGenres))) \<and>
         (\<forall>order' movie' tv'.
            getGenres (snd (getGenres s order (Inr movieGenres) (Inr tvGenres))) order' movie' tv'
              = (Some (Inr (uniqueGenres (movieGenres @ tvGenres))),
                 snd (getGenres s order (Inr movieGenres) (Inr tvGenres)))) \<and>
         distinct (map genre_id (uniqueGenres (movieGenres @ tvGenres))) \<and>
         genre_id ` set (uniqueGenres (movieGenres @ tvGenres)) = genre_id ` set (movieGenres @ tvGenres) \<and>
         (\<forall>g \<in> set (uniqueGenres (movieGenres @ tvGenres)).
            find (\<lambda>h. genre_id h = genre_id g) (movieGenres @ tvGenres) = Some g) \<and>
         length (uniqueGenres (movieGenres @ tvGenres)) = card (genre_id ` set (movieGenres @ tvGenres))"
proof -
  let ?u = "uniqueGenres (movieGenres @ tvGenres)"
  let ?s = "s\<lparr>genreCache := (genreCache s)(''all'' \<mapsto> ?u)\<rparr>"
  note 1 = getGenres_first_call[OF assms, of movieGenres tvGenres]
  have 2: "getGenres ?s order' movie' tv' = (Some (Inr ?u), ?s)" for order' movie' tv'
    by (simp add: getGenres_def)
  show ?thesis
    unfolding 1 fst_conv snd_conv
    using 2 uniqueGenres_distinct[of "movieGenres @ tvGenres"]
      uniqueGenres_ids[of "movieGenres @ tvGenres"]
      uniqueGenres_first[of _ "movieGenres @ tvGenres"]
      uniqueGenres_length[of "movieGenres @ tvGenres"]
    by blast
qed

theorem genre_registry_witness:
  "genreCache fresh_service ''all'' = None \<and> completion_order 2 [1, 0] \<and>
   fst (getGenres fresh_service [1, 0] (Inr movie_genres) (Inr tv_genres))
     = Some (Inr [\<lparr>genre_id = 28, name = ''Action''\<rparr>, \<lparr>genre_id = 18, name = ''Drama''\<rparr>,
                  \<lparr>genre_id = 10765, name = ''Sci-Fi''\<rparr>]) \<and>
   fst (getGenres (snd (getGenres fresh_service [1, 0] (Inr movie_genres) (Inr tv_genres)))
          [] (Inl NetworkError) (Inl NetworkError))
     = Some (Inr [\<lparr>genre_id = 28, name = ''Action''\<rparr>, \<lparr>genre_id = 18, name = ''Drama''\<rparr>,
                  \<lparr>genre_id = 10765, name = ''Sci-Fi''\<rparr>]) \<and>
   find (\<lambda>h. genre_id h = 18) (movie_genres @ tv_genres) = Some \<lparr>genre_id = 18, name = ''Drama''\<rparr> \<and>
   length (uniqueGenres (movie_genres @ tv_genres)) = 3"
proof -
  have c: "genreCache fresh_service ''all'' = None" by (simp add: fresh_service_def)
  have o: "completion_order 2 [1, 0]" by (auto simp: completion_order_def)
  have u: "uniqueGenres (movie_genres @ tv_genres) =
             [\<lparr>genre_id = 28, name = ''Action''\<rparr>, \<lparr>genre_id = 18, name = ''Drama''\<rparr>,
              \<lparr>genre_id = 10765, name = ''Sci-Fi''\<rparr>]"
    by (simp add: uniqueGenres_def add_if_new_def movie_genres_def tv_genres_def)
  show ?thesis
    using genre_registry[OF c o, of movie_genres tv_genres] c o by (simp add: u)
qed

subsection \<open>The merge functions\<close>

lemma truthy_not_nullish: "truthy v \<Longrightarrow> \<not> nullish v"
  by (cases v) auto

text \<open>A property of an object literal: the last value listed for it, or that of the spread object.\<close>

lemma map_of_assign: "map_of (assign obj kvs) = map_of obj ++ map_of (rev kvs)"
proof (induction kvs arbitrary: obj)
  case Nil
  then show ?case by (simp add: assign_def)
next
  case (Cons kv kvs)
  obtain k v where kv: "kv = (k, v)" by (cases kv)
  have step: "assign obj (kv # kvs) = assign (AList.update k v obj) kvs"
    by (simp add: assign_def kv)
  show ?case
    unfolding step Cons.IH
    by (auto simp: map_add_def fun_eq_iff kv update_conv' split: option.splits)
qed

lemma field_assign:
  "field (assign obj kvs) k = (case map_of (rev kvs) k of Some v \<Rightarrow> v | None \<Rightarrow> field obj k)"
  by (simp add: field_def map_of_assign map_add_def split: option.splits)

lemma merged_plot_strings:
  assumes "field tmdbItem ''plot'' = Str p" and "field omdbItem ''plot'' = Str e"
  shows "merged_plot tmdbItem omdbItem = Inr (if length e > length p then Str e else Str p)"
  using assms by (simp add: merged_plot_def bind_result_def get_prop_def js_gt_def)

lemma merged_cast_returns: "\<exists>cast. merged_cast tmdbItem omdbItem = Inr cast"
  by (simp add: merged_cast_def bind_result_def get_prop_def truthy_not_nullish)

lemma merged_production_returns:
  assumes "array_or_absent (field tmdbItem ''productionCompanies'')"
  shows "\<exists>production. merged_production join tmdbItem omdbItem = Inr production"
  using assms
  by (cases "field tmdbItem ''productionCompanies''")
    (simp_all add: merged_production_def joined_companies_def)

text \<open>
  Claim C3. For a primary record and an enrichment record whose plots are strings, both
  merge functions return a record whose plot is the enrichment's plot when that one is
  strictly longer, counted in UTF-16 code units as \<^verbatim>\<open>length\<close> does, and the primary
  record's plot otherwise, so also when the two have the same length. (For
  \<^verbatim>\<open>mergeDetailedData\<close> the primary record is one of the catalogue's: its production
  companies are an array or absent.)
\<close>

theorem merged_plot_is_the_longer:
  assumes "field tmdbItem ''plot'' = Str p" and "field omdbItem ''plot'' = Str e"
    and "array_or_absent (field tmdbItem ''productionCompanies'')"
  shows "(\<exists>merged. mergeBasicData tmdbItem omdbItem = Inr merged \<and>
            field merged ''plot'' = (if length e > length p then Str e else Str p)) \<and>
         (\<exists>merged. mergeDetailedData join tmdbItem omdbItem = Inr merged \<and>
            field merged ''plot'' = (if length e > length p then Str e else Str p))"
proof -
  note p = merged_plot_strings[of tmdbItem p omdbItem e, OF assms(1,2)]
  obtain cast where c: "merged_cast tmdbItem omdbItem = Inr cast"
    using merged_cast_returns by blast
  obtain production where d: "merged_production join tmdbItem omdbItem = Inr production"
    using merged_production_returns[of tmdbItem join omdbItem] assms(3) by blast
  have "\<exists>merged. mergeBasicData tmdbItem omdbItem = Inr merged \<and>
          field merged ''plot'' = (if length e > length p then Str e else Str p)"
    by (simp add: mergeBasicData_def p c bind_result_def field_assign)
  moreover have "\<exists>merged. mergeDetailedData join tmdbItem omdbItem = Inr merged \<and>
          field merged ''plot'' = (if length e > length p then Str e else Str p)"
    by (simp add: mergeDetailedData_def p c d bind_result_def field_assign)
  ultimately show ?thesis by blast
qed

theorem merged_plot_is_the_longer_witness:
  "(\<exists>merged. mergeBasicData (numbered_item 1) found_record = Inr merged \<and>
      field merged ''plot'' = long_plot) \<and>
   (\<exists>merged. mergeDetailedData join_names (numbered_item 1) found_record = Inr merged \<and>
      field merged ''plot'' = long_plot) \<and>
   (\<exists>merged. mergeBasicData found_record (numbered_item 1) = Inr merged \<and>
      field merged ''plot'' = long_plot) \<and>
   (\<exists>merged. mergeDetailedData join_names found_record (numbered_item 1) = Inr merged \<and>
      field merged ''plot'' = long_plot)"
proof -
  have a: "field (numbered_item 1) ''plot'' = Str (utf16 ''short'')"
    "field found_record ''plot'' = Str (utf16 ''a considerably longer plot description'')"
    "array_or_absent (field (numbered_item 1) ''productionCompanies'')"
    "array_or_absent (field found_record ''productionCompanies'')"
    by (simp_all add: numbered_item_def found_record_def field_def)
  show ?thesis
    using merged_plot_is_the_longer[where tmdbItem = "numbered_item 1" and omdbItem = found_record
        and p = "utf16 ''short''" and e = "utf16 ''a considerably longer plot description''"
        and join = join_names, OF a(1) a(2) a(3)]
      merged_plot_is_the_longer[where tmdbItem = found_record and omdbItem = "numbered_item 1"
        and e = "utf16 ''short''" and p = "utf16 ''a considerably longer plot description''"
        and join = join_names, OF a(2) a(1) a(4)]
    by (simp add: long_plot_def utf16_def)
qed

subsection \<open>The batched enrichment\<close>

lemma mergeBasicData_id:
  "mergeBasicData item omdbItem = Inr merged \<Longrightarrow> field merged ''id'' = field item ''id''"
  by (auto simp: mergeBasicData_def bind_result_def field_assign split: sum.splits)

lemma enriched_id: "item_id (enriched omdb n item) = item_id item"
  by (auto simp: enriched_def item_id_def mergeBasicData_id split: option.splits sum.splits)

lemma searchByTitle_fails:
  assumes "lookup_fails omdb n item"
  shows "searchByTitle omdb n (field item ''title'') (field item ''year'') (getOMDBType (field item ''type'')) = None"
  using assms
  by (auto simp: lookup_fails_def searchByTitle_def request_for_def bind_result_def isl_def
      split: sum.splits)

lemma enriched_failed: "lookup_fails omdb n item \<Longrightarrow> enriched omdb n item = item"
  by (simp add: enriched_def searchByTitle_fails)

text \<open>The callback never rejects: its \<^verbatim>\<open>catch\<close> takes every exception of the \<^verbatim>\<open>try\<close> block.\<close>

lemma enhance_item_fulfilled: "enhance_item omdb n item = Inr (enriched omdb n item)"
  by (simp add: enhance_item_def enriched_def split: option.splits sum.splits)

lemma slice_batch:
  assumes "0 \<le> i" and "i < int (length xs)" and "1 \<le> m"
  shows "slice xs i (i + m) = take (nat m) (drop (nat i) xs)"
  using assms by (auto simp: slice_def Let_def min_def)

lemma slice_empty: "slice xs i (i + 0) = []"
  by (simp add: slice_def Let_def)

text \<open>
  With a bound of at least 1 and lookups that all complete, the loop started at record
  \<open>n\<close> returns the accumulator followed by what the callbacks of the records from \<open>n\<close> on
  resolve with, in the order of the records.
\<close>

lemma enhance_loop_result:
  assumes "1 \<le> maxConcurrent" and "batches_settle settled maxConcurrent (length tmdbItems)"
  shows "enhance_loop omdb settled maxConcurrent tmdbItems (int n) n acc =
           Some (Inr (acc @ map (\<lambda>(k, item). enriched omdb k item) (enumerate n (drop n tmdbItems))))"
proof (induction "length tmdbItems - n" arbitrary: n acc rule: less_induct)
  case less
  show ?case
  proof (cases "n < length tmdbItems")
    case False
    then show ?thesis by (subst enhance_loop.simps) simp
  next
    case True
    define batch where "batch = take (nat maxConcurrent) (drop n tmdbItems)"
    have sl: "slice tmdbItems (int n) (int n + maxConcurrent) = batch"
      using slice_batch[of "int n" tmdbItems maxConcurrent] True assms(1) by (simp add: batch_def)
    have lb: "length batch = min (nat maxConcurrent) (length tmdbItems - n)"
      by (simp add: batch_def)
    let ?ps = "map (\<lambda>(k, item). enhance_item omdb k item) (enumerate n batch)"
    let ?vs = "map (\<lambda>(k, item). enriched omdb k item) (enumerate n batch)"
    have co: "completion_order (length ?ps) (settled n)"
      using assms(2) True lb by (simp add: batches_settle_def)
    have pa: "Promise_all ?ps (settled n) = Some (Inr ?vs)"
      using co by (intro Promise_all_fulfilled) (simp_all add: nth_enumerate_eq enhance_item_fulfilled)
    have next_i: "int n + maxConcurrent = int (n + nat maxConcurrent)" using assms(1) by simp
    have rest: "drop (n + length batch) tmdbItems = drop (n + nat maxConcurrent) tmdbItems"
      using lb by (cases "nat maxConcurrent \<le> length tmdbItems - n") auto
    have a: "drop n tmdbItems = batch @ drop (nat maxConcurrent) (drop n tmdbItems)"
      by (simp only: batch_def append_take_drop_id)
    have b: "drop (nat maxConcurrent) (drop n tmdbItems) = drop (n + nat maxConcurrent) tmdbItems"
      by (simp add: add.commute)
    have spl: "drop n tmdbItems = batch @ drop (n + length batch) tmdbItems"
      using a unfolding b rest .
    have step: "enhance_loop omdb settled maxConcurrent tmdbItems (int n) n acc =
                enhance_loop omdb settled maxConcurrent tmdbItems (int n + maxConcurrent)
                  (n + length batch) (acc @ ?vs)"
      using True by (subst enhance_loop.simps) (simp add: sl pa Let_def)
    show ?thesis
    proof (cases "nat maxConcurrent \<le> length tmdbItems - n")
      case le: True
      then have nb: "n + length batch = n + nat maxConcurrent" using lb by simp
      have "length tmdbItems - (n + nat maxConcurrent) < length tmdbItems - n"
        using True assms(1) by linarith
      from less[OF this, of "acc @ ?vs"]
      have ih: "enhance_loop omdb settled maxConcurrent tmdbItems (int (n + nat maxConcurrent))
                  (n + nat maxConcurrent) (acc @ ?vs) =
                Some (Inr ((acc @ ?vs) @ map (\<lambda>(k, item). enriched omdb k item)
                  (enumerate (n + nat maxConcurrent) (drop (n + nat maxConcurrent) tmdbItems))))" .
      have "enumerate n (drop n tmdbItems) =
            enumerate n batch @ enumerate (n + nat maxConcurrent) (drop (n + nat maxConcurrent) tmdbItems)"
        by (subst spl) (simp add: enumerate_append_eq nb)
      then show ?thesis
        unfolding step next_i nb ih by simp
    next
      case gt: False
      then have all: "batch = drop n tmdbItems" by (simp add: batch_def)
      have fin: "\<not> int n + maxConcurrent < int (length tmdbItems)" using gt by linarith
      have "enhance_loop omdb settled maxConcurrent tmdbItems (int n + maxConcurrent)
                  (n + length batch) (acc @ ?vs) = Some (Inr (acc @ ?vs))"
        using fin by (subst enhance_loop.simps) simp
      then show ?thesis unfolding step by (simp add: all)
    qed
  qed
qed

lemma enhanceWithOMDBData_result:
  assumes "1 \<le> maxConcurrent" and "batches_settle settled maxConcurrent (length tmdbItems)"
  shows "enhanceWithOMDBData omdb settled tmdbItems maxConcurrent =
           Some (Inr (map (\<lambda>(k, item). enriched omdb k item) (enumerate 0 tmdbItems)))"
  using enhance_loop_result[OF assms, of omdb 0 "[]"]
  by (simp add: enhanceWithOMDBData_def)

text \<open>
  With a bound of 0 the batch is empty, \<^verbatim>\<open>Promise.all\<close> of no promise resolves, and the
  loop goes on with the same \<open>i\<close>: while a record is left it never returns.
\<close>

lemma enhance_loop_zero_diverges:
  assumes "enhance_loop omdb settled maxConcurrent tmdbItems i issued acc = Some r"
  shows "\<not> (maxConcurrent = 0 \<and> i < int (length tmdbItems))"
proof (rule enhance_loop.raw_induct
    [where P = "\<lambda>omdb settled maxConcurrent tmdbItems i issued acc r.
                  \<not> (maxConcurrent = 0 \<and> i < int (length tmdbItems))", OF _ assms])
  fix f :: "omdb_api \<Rightarrow> (nat \<Rightarrow> nat list) \<Rightarrow> int \<Rightarrow> jsobj list \<Rightarrow> int \<Rightarrow> nat \<Rightarrow> jsobj list
              \<Rightarrow> (js_error + jsobj list) option"
  fix omdb settled maxConcurrent tmdbItems i issued acc r
  assume ih: "\<And>omdb settled maxConcurrent tmdbItems i issued acc r.
                 f omdb settled maxConcurrent tmdbItems i issued acc = Some r \<Longrightarrow>
                 \<not> (maxConcurrent = 0 \<and> i < int (length tmdbItems))"
  assume body: "(if i < int (length tmdbItems)
      then let batch = slice tmdbItems i (i + maxConcurrent);
               batchPromises = map (\<lambda>(k, item). enhance_item omdb k item) (enumerate issued batch)
           in case Promise_all batchPromises (settled issued) of None \<Rightarrow> None
              | Some (Inl error) \<Rightarrow> Some (Inl error)
              | Some (Inr batchResults) \<Rightarrow>
                  f omdb settled maxConcurrent tmdbItems (i + maxConcurrent) (issued + length batch)
                   (acc @ batchResults)
      else Some (Inr acc)) = Some r"
  show "\<not> (maxConcurrent = 0 \<and> i < int (length tmdbItems))"
  proof
    assume z: "maxConcurrent = 0 \<and> i < int (length tmdbItems)"
    then have "f omdb settled maxConcurrent tmdbItems i issued acc = Some r"
      using body slice_empty[of tmdbItems i] by (simp add: Let_def Promise_all_def)
    from ih[OF this] z show False by simp
  qed
qed

lemma last_first_settles: "batches_settle (last_first batchSize len) (int batchSize) len"
  by (auto simp: batches_settle_def completion_order_def last_first_def)

text \<open>
  Claim C1, as the specification states it: for every list of records and every
  concurrency bound the engine returns a list of the same length. With the bound 0 and a
  list of one record the engine never returns.
\<close>

theorem zero_concurrency_never_returns:
  "enhanceWithOMDBData offline (in_order 5) [numbered_item 1] 0 = None"
proof (cases "enhanceWithOMDBData offline (in_order 5) [numbered_item 1] 0")
  case None
  then show ?thesis .
next
  case (Some r)
  then have "enhance_loop offline (in_order 5) 0 [numbered_item 1] 0 0 [] = Some r"
    by (simp add: enhanceWithOMDBData_def)
  from enhance_loop_zero_diverges[OF this] show ?thesis by simp
qed

text \<open>
  Claim C1, amended. For every list of records and every concurrency bound of at least
  1, when every lookup completes, the engine returns a list of the same length as its
  input, and at every index the returned record has the \<^verbatim>\<open>id\<close> of the input record at
  that index. This holds for every order in which the lookups of a batch complete.
\<close>

theorem enrichment_keeps_places:
  assumes "1 \<le> maxConcurrent" and "batches_settle settled maxConcurrent (length tmdbItems)"
  shows "\<exists>enhanced. enhanceWithOMDBData omdb settled tmdbItems maxConcurrent = Some (Inr enhanced) \<and>
           length enhanced = length tmdbItems \<and>
           (\<forall>i < length tmdbItems. item_id (enhanced ! i) = item_id (tmdbItems ! i))"
  using enhanceWithOMDBData_result[OF assms, of omdb]
  by (simp add: nth_enumerate_eq enriched_id)

theorem enrichment_keeps_places_witness:
  "\<exists>enhanced. enhanceWithOMDBData flaky_omdb (last_first 3 7) seven_items 3 = Some (Inr enhanced) \<and>
     length enhanced = 7 \<and>
     item_id (enhanced ! 0) = Num (Finite 1) \<and> item_id (enhanced ! 6) = Num (Finite 7)"
proof -
  have l: "length seven_items = 7" by (simp add: seven_items_def)
  have s: "batches_settle (last_first 3 7) 3 (length seven_items)"
    using last_first_settles[of 3 7] by (simp add: l)
  have i: "item_id (seven_items ! 0) = Num (Finite 1)" "item_id (seven_items ! 6) = Num (Finite 7)"
    by (simp_all add: seven_items_def item_id_def numbered_item_def field_def)
  from enrichment_keeps_places[of 3 "last_first 3 7" seven_items flaky_omdb] s
  obtain enhanced where
    e: "enhanceWithOMDBData flaky_omdb (last_first 3 7) seven_items 3 = Some (Inr enhanced)"
      "length enhanced = length seven_items"
      "\<forall>i < length seven_items. item_id (enhanced ! i) = item_id (seven_items ! i)"
    by auto
  from e(3) have "item_id (enhanced ! 0) = item_id (seven_items ! 0)"
    "item_id (enhanced ! 6) = item_id (seven_items ! 6)"
    by (simp_all add: l)
  with e(1,2) i l show ?thesis by simp
qed

text \<open>
  Claim C2. Let the lookups of any set of positions fail or find nothing (a rejected
  request, an unreadable payload, the not-found sentinel, a payload that cannot be
  reshaped). Then the engine, with a concurrency bound of at least 1 such as its default
  5 and with every lookup completing, still returns normally, with one record per input
  record, and at each of those positions the returned record is the primary record
  itself, with no enrichment applied. No exception leaves the engine: the result is a
  returned list, never a thrown exception.
\<close>

theorem failed_lookups_fall_back_to_primary:
  assumes "1 \<le> maxConcurrent" and "batches_settle settled maxConcurrent (length tmdbItems)"
    and "\<forall>k \<in> failed. k < length tmdbItems \<and> lookup_fails omdb k (tmdbItems ! k)"
  shows "\<exists>enhanced. enhanceWithOMDBData omdb settled tmdbItems maxConcurrent = Some (Inr enhanced) \<and>
           length enhanced = length tmdbItems \<and>
           (\<forall>k \<in> failed. enhanced ! k = tmdbItems ! k)"
  using enhanceWithOMDBData_result[OF assms(1,2), of omdb] assms(3)
  by (simp add: nth_enumerate_eq enriched_failed)

theorem failed_lookups_fall_back_to_primary_witness:
  "lookup_fails flaky_omdb 3 (seven_items ! 3) \<and>
   (\<exists>enhanced. enhanceWithOMDBData flaky_omdb (last_first 5 7) seven_items 5 = Some (Inr enhanced) \<and>
      length enhanced = 7 \<and> enhanced ! 3 = seven_items ! 3)"
proof -
  have l: "length seven_items = 7" by (simp add: seven_items_def)
  have s: "batches_settle (last_first 5 7) 5 (length seven_items)"
    using last_first_settles[of 5 7] by (simp add: l)
  have f: "lookup_fails flaky_omdb 3 (seven_items ! 3)"
    by (simp add: lookup_fails_def flaky_omdb_def)
  then have "\<forall>k \<in> {3}. k < length seven_items \<and> lookup_fails flaky_omdb k (seven_items ! k)"
    by (simp add: l)
  from failed_lookups_fall_back_to_primary[of 5 "last_first 5 7" seven_items "{3}" flaky_omdb, OF _ s this]
  show ?thesis using f by (simp add: l)
qed

end
